theory Spec2Isabelle
  imports Main
begin

section \<open>Characters and character classes\<close>

text \<open>
  A \<open>QString\<close> is modelled as a \<^typ>\<open>string\<close>: a message is a list of 8-bit characters,
  so the model covers the messages whose code units lie in the Latin-1 range. Positions
  and lengths count characters, as \<open>QString\<close> counts code units.
\<close>

definition code :: "char \<Rightarrow> int" where
  "code c = of_char c"

definition newline :: char where
  "newline = CHR 0x0A"

definition backslash :: char where
  "backslash = CHR 0x5C"

definition isLower :: "char \<Rightarrow> bool" where
  "isLower c \<longleftrightarrow> 97 \<le> code c \<and> code c \<le> 122"

definition isUpper :: "char \<Rightarrow> bool" where
  "isUpper c \<longleftrightarrow> 65 \<le> code c \<and> code c \<le> 90"

definition isDigit :: "char \<Rightarrow> bool" where
  "isDigit c \<longleftrightarrow> 48 \<le> code c \<and> code c \<le> 57"

text \<open>The class \<open>[a-zA-Z0-9]\<close>.\<close>

definition isAlnum :: "char \<Rightarrow> bool" where
  "isAlnum c \<longleftrightarrow> isLower c \<or> isUpper c \<or> isDigit c"

text \<open>\<open>\w\<close> without the Unicode-properties option: ASCII letters, digits and underscore.\<close>

definition isWord :: "char \<Rightarrow> bool" where
  "isWord c \<longleftrightarrow> isAlnum c \<or> c = CHR ''_''"

text \<open>
  \<open>\s\<close> without the Unicode-properties option (the URL patterns): space, tab, line feed,
  vertical tab, form feed, carriage return.
\<close>

definition isSpaceAscii :: "char \<Rightarrow> bool" where
  "isSpaceAscii c \<longleftrightarrow> code c = 32 \<or> (9 \<le> code c \<and> code c \<le> 13)"

text \<open>
  \<open>\s\<close> with \<open>UseUnicodePropertiesOption\<close> (the markdown patterns): in the Latin-1 range
  the Unicode white space adds NEL (0x85) and the no-break space (0xA0).
\<close>

definition isSpaceUcp :: "char \<Rightarrow> bool" where
  "isSpaceUcp c \<longleftrightarrow> isSpaceAscii c \<or> code c = 133 \<or> code c = 160"

section \<open>A backtracking matcher for the regular expressions of the file\<close>

text \<open>
  The patterns of \<open>textformatter.cpp\<close> are written as terms of \<open>rx\<close>, one constructor per
  construct of the pattern language they use. A repetition \<open>x+\<close> is \<open>x\<close> followed by
  \<open>x*\<close>, \<open>x?\<close> is the alternative of \<open>x\<close> and the empty pattern, \<open>x{n}\<close> is \<open>n\<close> copies.
\<close>

datatype rx =
    Cls "char \<Rightarrow> bool"
  | Eps
  | Seq rx rx
  | Alt rx rx
  | StarG rx
  | StarL rx
  | Grp nat rx
  | Ahead rx
  | NotAhead rx
  | Behind rx
  | NotBehind rx
  | Bol
  | Eol
  | WordB

type_synonym caps = "nat \<rightharpoonup> nat \<times> nat"

definition Chr :: "char \<Rightarrow> rx" where
  "Chr x = Cls (\<lambda>c. c = x)"

definition PlusG :: "rx \<Rightarrow> rx" where
  "PlusG r = Seq r (StarG r)"

definition PlusL :: "rx \<Rightarrow> rx" where
  "PlusL r = Seq r (StarL r)"

definition Opt :: "rx \<Rightarrow> rx" where
  "Opt r = Alt r Eps"

primrec cat :: "rx list \<Rightarrow> rx" where
  "cat [] = Eps"
| "cat (r # rs) = Seq r (cat rs)"

definition lit :: "string \<Rightarrow> rx" where
  "lit w = cat (map Chr w)"

primrec rep :: "nat \<Rightarrow> rx \<Rightarrow> rx" where
  "rep 0 r = Eps"
| "rep (Suc n) r = Seq r (rep n r)"

text \<open>
  \<open>bt r s i c\<close> lists, in the order in which a backtracking matcher tries them, the ways
  in which \<open>r\<close> matches the subject \<open>s\<close> from position \<open>i\<close> with the groups \<open>c\<close> set so
  far: each is the position reached with the groups set there. The match the library
  reports is the first of the list. A greedy repetition tries one more iteration before
  it tries to stop, a lazy one the other way round; an iteration that consumes nothing
  ends the repetition. A lookbehind holds at \<open>i\<close> when its pattern matches a stretch of
  the subject that ends at \<open>i\<close> (the alternatives of the lookbehinds of the file have the
  fixed lengths 0 and 1). Without the multi-line option \<open>^\<close> holds at the start of the
  subject only, and \<open>$\<close> at its end or before a line feed that is its last character.
  The limits that the library puts on the number of backtracking steps are not
  modelled.
\<close>

function bt :: "rx \<Rightarrow> string \<Rightarrow> nat \<Rightarrow> caps \<Rightarrow> (nat \<times> caps) list" where
  "bt (Cls P) s i c = (if i < length s \<and> P (s ! i) then [(Suc i, c)] else [])"
| "bt Eps s i c = [(i, c)]"
| "bt (Seq a b) s i c = concat (map (\<lambda>(j, c'). bt b s j c') (bt a s i c))"
| "bt (Alt a b) s i c = bt a s i c @ bt b s i c"
| "bt (StarG a) s i c =
     concat (map (\<lambda>(j, c'). if i < j \<and> j \<le> length s then bt (StarG a) s j c' else [(j, c')])
                 (bt a s i c)) @ [(i, c)]"
| "bt (StarL a) s i c =
     (i, c) # concat (map (\<lambda>(j, c'). if i < j \<and> j \<le> length s then bt (StarL a) s j c'
                                      else [(j, c')])
                          (bt a s i c))"
| "bt (Grp n a) s i c = map (\<lambda>(j, c'). (j, c'(n \<mapsto> (i, j)))) (bt a s i c)"
| "bt (Ahead a) s i c = (case bt a s i c of [] \<Rightarrow> [] | (j, c') # _ \<Rightarrow> [(i, c')])"
| "bt (NotAhead a) s i c = (case bt a s i c of [] \<Rightarrow> [(i, c)] | _ # _ \<Rightarrow> [])"
| "bt (Behind a) s i c =
     (if list_ex (\<lambda>k. list_ex (\<lambda>(j, c'). j = i) (bt a s k c)) [0..<Suc i] then [(i, c)] else [])"
| "bt (NotBehind a) s i c =
     (if list_ex (\<lambda>k. list_ex (\<lambda>(j, c'). j = i) (bt a s k c)) [0..<Suc i] then [] else [(i, c)])"
| "bt Bol s i c = (if i = 0 then [(i, c)] else [])"
| "bt Eol s i c =
     (if i = length s \<or> (Suc i = length s \<and> s ! i = newline) then [(i, c)] else [])"
| "bt WordB s i c =
     (if (0 < i \<and> i \<le> length s \<and> isWord (s ! (i - 1))) \<noteq> (i < length s \<and> isWord (s ! i))
      then [(i, c)] else [])"
  by pat_completeness auto
termination
  by (relation "measures [\<lambda>(r, s, i, c). size r, \<lambda>(r, s, i, c). length s - i]") auto

section \<open>Matches and the global match iterator\<close>

text \<open>
  A \<open>QRegularExpressionMatch\<close>: the subject, the span of the whole match (group 0) and the
  spans of the numbered groups that took part.
\<close>

record qmatch =
  subject :: string
  mstart :: nat
  mend :: nat
  groups :: caps

definition capturedStart :: "qmatch \<Rightarrow> nat" where
  "capturedStart m = mstart m"

definition capturedLength :: "qmatch \<Rightarrow> nat" where
  "capturedLength m = mend m - mstart m"

text \<open>\<open>captured(n)\<close>: the text of group \<open>n\<close>, empty for a group that did not take part.\<close>

definition captured :: "qmatch \<Rightarrow> nat \<Rightarrow> string" where
  "captured m n =
     (if n = 0 then take (mend m - mstart m) (drop (mstart m) (subject m))
      else case groups m n of
             None \<Rightarrow> []
           | Some (a, b) \<Rightarrow> take (b - a) (drop a (subject m)))"

text \<open>The match that starts exactly at position \<open>i\<close>, if there is one.\<close>

definition match_at :: "rx \<Rightarrow> string \<Rightarrow> nat \<Rightarrow> (nat \<times> caps) option" where
  "match_at r s i = (case bt r s i Map.empty of [] \<Rightarrow> None | x # _ \<Rightarrow> Some x)"

text \<open>
  \<open>globalMatch\<close>: the matches of the iterator, in order. The search for the next match
  starts where the previous match ended and tries the start positions from left to
  right, up to the end of the subject; the whole subject stays visible to lookbehinds.
  After an empty match the search moves on by one character; every pattern of the file
  holds a literal character outside its lookarounds, so none matches the empty string.
\<close>

function globalMatch_from :: "rx \<Rightarrow> string \<Rightarrow> nat \<Rightarrow> qmatch list" where
  "globalMatch_from r s i =
     (if length s < i then []
      else case match_at r s i of
             None \<Rightarrow> globalMatch_from r s (Suc i)
           | Some (j, c) \<Rightarrow>
               \<lparr>subject = s, mstart = i, mend = j, groups = c\<rparr>
                 # globalMatch_from r s (if i < j then j else Suc i))"
  by pat_completeness auto
termination
  by (relation "measure (\<lambda>(r, s, i). Suc (length s) - i)") auto

definition globalMatch :: "rx \<Rightarrow> string \<Rightarrow> qmatch list" where
  "globalMatch r s = globalMatch_from r s 0"

section \<open>The operations of \<open>QString\<close> that the file uses\<close>

text \<open>
  \<open>QString::replace(pos, len, after)\<close>: a position outside the string leaves it unchanged,
  a length that runs past the end is cut at the end.
\<close>

definition replace_q :: "string \<Rightarrow> int \<Rightarrow> nat \<Rightarrow> string \<Rightarrow> string" where
  "replace_q s pos len after =
     (if pos < 0 \<or> int (length s) < pos then s
      else take (nat pos) s @ after @ drop (nat pos + len) s)"

text \<open>
  \<open>QString::arg(a)\<close> on a template whose only place marker is \<open>%1\<close>: every occurrence of
  the marker is replaced by \<open>a\<close>.
\<close>

fun arg_q :: "string \<Rightarrow> string \<Rightarrow> string" where
  "arg_q [] a = []"
| "arg_q [x] a = [x]"
| "arg_q (x # y # t) a =
     (if x = CHR ''%'' \<and> y = CHR ''1'' then a @ arg_q t a else x # arg_q (y # t) a)"

section \<open>The patterns\<close>

text \<open>\<open>(?<=^|[\s\n])\<close> and \<open>(?=$|[\s\n])\<close>, the boundary assertions of the markdown patterns.\<close>

definition spaceOrNewline :: "char \<Rightarrow> bool" where
  "spaceOrNewline c \<longleftrightarrow> isSpaceUcp c \<or> c = newline"

definition afterStartOrSpace :: rx where
  "afterStartOrSpace = Behind (Alt Bol (Cls spaceOrNewline))"

definition beforeEndOrSpace :: rx where
  "beforeEndOrSpace = Ahead (Alt Eol (Cls spaceOrNewline))"

text \<open>\<open>SINGLE_SIGN_PATTERN.arg(d)\<close>; \<open>SINGLE_SLASH_PATTERN\<close> is the same pattern at \<open>/\<close>.\<close>

definition SINGLE_SIGN_PATTERN :: "char \<Rightarrow> rx" where
  "SINGLE_SIGN_PATTERN d = cat
     [afterStartOrSpace,
      Chr d,
      NotAhead (Cls isSpaceUcp),
      Grp 1 (PlusL (Cls (\<lambda>c. c \<noteq> d \<and> c \<noteq> newline))),
      NotBehind (Cls isSpaceUcp),
      Chr d,
      beforeEndOrSpace]"

definition SINGLE_SLASH_PATTERN :: rx where
  "SINGLE_SLASH_PATTERN = cat
     [afterStartOrSpace,
      Chr CHR ''/'',
      NotAhead (Cls isSpaceUcp),
      Grp 1 (PlusL (Cls (\<lambda>c. c \<noteq> CHR ''/'' \<and> c \<noteq> newline))),
      NotBehind (Cls isSpaceUcp),
      Chr CHR ''/'',
      beforeEndOrSpace]"

definition DOUBLE_SIGN_PATTERN :: "char \<Rightarrow> rx" where
  "DOUBLE_SIGN_PATTERN d = cat
     [afterStartOrSpace,
      rep 2 (Chr d),
      NotAhead (Cls isSpaceUcp),
      Grp 1 (PlusL (Cls (\<lambda>c. c \<noteq> newline))),
      NotBehind (Cls isSpaceUcp),
      rep 2 (Chr d),
      beforeEndOrSpace]"

text \<open>
  In \<open>MULTILINE_CODE\<close> the dot stands for every character but the line feed, the line
  ending of the library's default configuration.
\<close>

definition MULTILINE_CODE :: rx where
  "MULTILINE_CODE = cat
     [afterStartOrSpace,
      lit ''```'',
      NotAhead (Chr CHR ''`''),
      Grp 1 (PlusL (Grp 2 (Alt (Cls (\<lambda>c. c \<noteq> newline)) (Chr newline)))),
      NotBehind (Chr CHR ''`''),
      lit ''```'',
      beforeEndOrSpace]"

definition CODE_WRAPPER :: string where
  "CODE_WRAPPER = ''<font color=#595959><code>%1</code></font>''"

definition REGEX_TO_WRAPPER :: "(rx \<times> string) list" where
  "REGEX_TO_WRAPPER =
     [(SINGLE_SLASH_PATTERN, ''<i>%1</i>''),
      (SINGLE_SIGN_PATTERN CHR ''*'', ''<b>%1</b>''),
      (SINGLE_SIGN_PATTERN CHR ''_'', ''<u>%1</u>''),
      (SINGLE_SIGN_PATTERN CHR ''~'', ''<s>%1</s>''),
      (SINGLE_SIGN_PATTERN CHR ''`'', CODE_WRAPPER),
      (DOUBLE_SIGN_PATTERN CHR ''*'', ''<b>%1</b>''),
      (DOUBLE_SIGN_PATTERN CHR ''/'', ''<i>%1</i>''),
      (DOUBLE_SIGN_PATTERN CHR ''_'', ''<u>%1</u>''),
      (DOUBLE_SIGN_PATTERN CHR ''~'', ''<s>%1</s>''),
      (MULTILINE_CODE, CODE_WRAPPER)]"

definition HREF_WRAPPER :: string where
  \<open>HREF_WRAPPER = ''<a href="%1">%1</a>''\<close>

text \<open>\<open>URL_PATH_PATTERN\<close> without its \<open>+\<close>: the class \<open>[\w:/?#\[\]@!$&'{}*+,;.~%=-]\<close>.\<close>

definition isUrlPath :: "char \<Rightarrow> bool" where
  "isUrlPath c \<longleftrightarrow> isWord c \<or> c \<in> set '':/?#[]@!$&'' \<or> c = CHR 0x27
     \<or> c \<in> set ''{}*+,;.~%=-''"

text \<open>\<open>\S\<close> in the URL patterns.\<close>

definition nonSpace :: rx where
  "nonSpace = Cls (\<lambda>c. \<not> isSpaceAscii c)"

text \<open>
  The third pattern is written in a raw string literal, so the class of its source text
  \<open>[a-zA-Z\\d]\<close> holds the letters, the backslash (\<open>\\\<close>) and the letter \<open>d\<close>.
\<close>

definition URL_PATTERNS :: "rx list" where
  "URL_PATTERNS =
     [cat [WordB,
           Grp 1 (Alt (lit ''www.'')
                      (cat [Grp 2 (Alt (Grp 3 (cat [lit ''http'', Opt (Chr CHR ''s'')]))
                                       (lit ''ftp'')),
                            lit ''://''])),
           PlusG (Cls isUrlPath)],
      cat [WordB,
           Grp 1 (Alt (lit ''file'') (lit ''smb'')),
           lit ''://'',
           Grp 2 (StarG (Cls (\<lambda>c. \<not> isSpaceAscii c \<or> c = CHR ''|'' \<or> c = CHR '' '')))],
      cat [WordB,
           lit ''tox:'',
           rep 76 (Cls (\<lambda>c. isLower c \<or> isUpper c \<or> c = backslash \<or> c = CHR ''d''))],
      cat [WordB,
           lit ''mailto:'',
           PlusG nonSpace, Chr CHR ''@'', PlusG nonSpace, Chr CHR ''.'', PlusG nonSpace],
      cat [WordB,
           lit ''tox:'',
           PlusG nonSpace, Chr CHR ''@'', PlusG nonSpace]]"

text \<open>\<open>TAG_PATTERN\<close> of \<open>isTagIntersection\<close>: \<open>(?<=<)/?[a-zA-Z0-9]+(?=>)\<close>.\<close>

definition TAG_PATTERN :: rx where
  "TAG_PATTERN = cat
     [Behind (Chr CHR ''<''),
      Opt (Chr CHR ''/''),
      PlusG (Cls isAlnum),
      Ahead (Chr CHR ''>'')]"

section \<open>The functions of the file\<close>

subsection \<open>\<open>highlightURL\<close>\<close>

text \<open>The body of the \<open>while\<close> loop: the state is the result string and the offset.\<close>

definition url_step :: "nat \<Rightarrow> qmatch \<Rightarrow> string \<times> int \<Rightarrow> string \<times> int" where
  "url_step startLength m = (\<lambda>(result, offset).
     let startPos = int (capturedStart m) + offset;
         len = capturedLength m;
         wrappedURL = arg_q HREF_WRAPPER (captured m 0);
         result' = replace_q result startPos len wrappedURL
     in (result', int (length result') - int startLength))"

text \<open>The body of the \<open>for\<close> loop: one pattern over the current result.\<close>

definition url_pass :: "rx \<Rightarrow> string \<Rightarrow> string" where
  "url_pass exp result =
     fst (fold (url_step (length result)) (globalMatch exp result) (result, 0))"

definition highlightURL :: "string \<Rightarrow> string" where
  "highlightURL message = fold url_pass URL_PATTERNS message"

subsection \<open>\<open>isTagIntersection\<close>\<close>

text \<open>
  \<open>captured()[0] == '/'\<close>: the first character of the match (a match of \<open>TAG_PATTERN\<close> is
  never empty).
\<close>

definition startsWithSlash :: "string \<Rightarrow> bool" where
  "startsWithSlash w = (case w of [] \<Rightarrow> False | x # _ \<Rightarrow> x = CHR ''/'')"

text \<open>The loop: the state is the pair of \<open>openingTagCount\<close> and \<open>closingTagCount\<close>.\<close>

definition tag_step :: "qmatch \<Rightarrow> int \<times> int \<Rightarrow> int \<times> int" where
  "tag_step m = (\<lambda>(openingTagCount, closingTagCount).
     if startsWithSlash (captured m 0) then (openingTagCount, closingTagCount + 1)
     else (openingTagCount + 1, closingTagCount))"

definition tagCounts :: "string \<Rightarrow> int \<times> int" where
  "tagCounts str = fold tag_step (globalMatch TAG_PATTERN str) (0, 0)"

definition isTagIntersection :: "string \<Rightarrow> bool" where
  "isTagIntersection str = (case tagCounts str of
     (openingTagCount, closingTagCount) \<Rightarrow> openingTagCount \<noteq> closingTagCount)"

subsection \<open>\<open>applyMarkdown\<close>\<close>

text \<open>
  The body of the \<open>while\<close> loop. \<open>match.captured(!showFormattingSymbols)\<close> is group 1 when
  the flag is false and group 0, the whole match, when it is true.
\<close>

definition md_step :: "string \<Rightarrow> bool \<Rightarrow> qmatch \<Rightarrow> string \<times> int \<Rightarrow> string \<times> int" where
  "md_step wrapper showFormattingSymbols m = (\<lambda>(result, offset).
     let capturedText = captured m (if showFormattingSymbols then 0 else 1)
     in if isTagIntersection capturedText then (result, offset)
        else
          let len = capturedLength m;
              wrappedText = arg_q wrapper capturedText;
              startPos = int (capturedStart m) + offset
          in (replace_q result startPos len wrappedText,
              offset + (int (length wrappedText) - int len)))"

definition md_pass :: "bool \<Rightarrow> rx \<times> string \<Rightarrow> string \<Rightarrow> string" where
  "md_pass showFormattingSymbols pair result =
     fst (fold (md_step (snd pair) showFormattingSymbols) (globalMatch (fst pair) result)
            (result, 0))"

definition applyMarkdown :: "string \<Rightarrow> bool \<Rightarrow> string" where
  "applyMarkdown message showFormattingSymbols =
     fold (md_pass showFormattingSymbols) REGEX_TO_WRAPPER message"

section \<open>Definitions for the statements and proofs\<close>

subsection \<open>The tag-name tokens of the specification\<close>

text \<open>
  These definitions follow the words of the specification of the Tag-Intersection
  Checker, not the code: a tag-name token is a run of letters and digits, optionally
  prefixed with \<open>/\<close>, that stands immediately between a \<open><\<close> and a \<open>>\<close>. \<open>tokenAt s i j\<close> says
  that the characters of \<open>s\<close> from position \<open>i\<close> up to, not including, position \<open>j\<close> are such
  a token; \<open>tagTokens\<close> lists the tokens of a string; a token that starts with \<open>/\<close> is a
  closing one, every other an opening one; \<open>tagImbalance\<close> compares the two counts.
\<close>

definition isTagName :: "string \<Rightarrow> bool" where
  "isTagName t \<longleftrightarrow>
     (case t of
        [] \<Rightarrow> False
      | x # u \<Rightarrow> if x = CHR ''/'' then u \<noteq> [] \<and> list_all isAlnum u else list_all isAlnum t)"

definition tokenAt :: "string \<Rightarrow> nat \<Rightarrow> nat \<Rightarrow> bool" where
  "tokenAt s i j \<longleftrightarrow>
     0 < i \<and> i < j \<and> j < length s \<and> s ! (i - 1) = CHR ''<'' \<and> s ! j = CHR ''>'' \<and>
     isTagName (take (j - i) (drop i s))"

definition tokensFrom :: "string \<Rightarrow> nat \<Rightarrow> (nat \<times> nat) list" where
  "tokensFrom s a =
     concat (map (\<lambda>i. map (Pair i) (filter (tokenAt s i) [i..<length s])) [a..<length s])"

definition tagTokens :: "string \<Rightarrow> (nat \<times> nat) list" where
  "tagTokens s = tokensFrom s 0"

definition closingToken :: "string \<Rightarrow> nat \<times> nat \<Rightarrow> bool" where
  "closingToken s t \<longleftrightarrow> s ! fst t = CHR ''/''"

definition tagImbalance :: "string \<Rightarrow> bool" where
  "tagImbalance s \<longleftrightarrow>
     length (filter (closingToken s) (tagTokens s))
       \<noteq> length (filter (\<lambda>t. \<not> closingToken s t) (tagTokens s))"

subsection \<open>Strings without a match\<close>

text \<open>No match of the pattern \<open>r\<close> starts at any position of \<open>s\<close>.\<close>

definition noMatchAnywhere :: "rx \<Rightarrow> string \<Rightarrow> bool" where
  "noMatchAnywhere r s \<longleftrightarrow> list_all (\<lambda>i. Option.is_none (match_at r s i)) [0..<Suc (length s)]"

subsection \<open>Notions used in the proofs\<close>

text \<open>The condition of a lookbehind: the pattern matches a stretch that ends at \<open>i\<close>.\<close>

definition endsAt :: "rx \<Rightarrow> string \<Rightarrow> nat \<Rightarrow> caps \<Rightarrow> bool" where
  "endsAt a s i c \<longleftrightarrow> (\<exists>k\<le>i. \<exists>d. (i, d) \<in> set (bt a s k c))"

text \<open>A pattern without a capturing group that can set a group of the result.\<close>

fun groupfree :: "rx \<Rightarrow> bool" where
  "groupfree (Grp n a) = False"
| "groupfree (Seq a b) = (groupfree a \<and> groupfree b)"
| "groupfree (Alt a b) = (groupfree a \<and> groupfree b)"
| "groupfree (StarG a) = groupfree a"
| "groupfree (StarL a) = groupfree a"
| "groupfree (Ahead a) = groupfree a"
| "groupfree r = True"

text \<open>The two halves of the boundary rule of the markdown patterns.\<close>

definition startOK :: "string \<Rightarrow> nat \<Rightarrow> bool" where
  "startOK s i \<longleftrightarrow> i = 0 \<or> (0 < i \<and> i \<le> length s \<and> spaceOrNewline (s ! (i - 1)))"

definition endOK :: "string \<Rightarrow> nat \<Rightarrow> bool" where
  "endOK s j \<longleftrightarrow> j = length s \<or> (j < length s \<and> spaceOrNewline (s ! j))"

text \<open>The match record of a token.\<close>

definition tokenMatch :: "string \<Rightarrow> nat \<times> nat \<Rightarrow> qmatch" where
  "tokenMatch s t = \<lparr>subject = s, mstart = fst t, mend = snd t, groups = Map.empty\<rparr>"

section \<open>Properties of the matcher\<close>

subsection \<open>Membership in the list of results\<close>

text \<open>
  The equations of the matcher are taken out of the simplifier; what a result of each
  construct looks like is stated once, as a rule about membership in the list.
\<close>

declare bt.simps [simp del]

lemma mem_Cls: "(j, c') \<in> set (bt (Cls P) s i c) \<longleftrightarrow>
   j = Suc i \<and> c' = c \<and> i < length s \<and> P (s ! i)"
  by (auto simp: bt.simps)

lemma mem_Seq: "(j, c') \<in> set (bt (Seq a b) s i c) \<longleftrightarrow>
   (\<exists>k d. (k, d) \<in> set (bt a s i c) \<and> (j, c') \<in> set (bt b s k d))"
  by (auto simp: bt.simps)

lemma mem_Grp: "(j, c') \<in> set (bt (Grp n a) s i c) \<longleftrightarrow>
   (\<exists>d. (j, d) \<in> set (bt a s i c) \<and> c' = d(n \<mapsto> (i, j)))"
  by (auto simp: bt.simps)

lemma mem_Ahead: "(j, c') \<in> set (bt (Ahead a) s i c) \<longleftrightarrow>
   j = i \<and> (\<exists>x xs. bt a s i c = x # xs \<and> c' = snd x)"
  by (cases "bt a s i c") (auto simp: bt.simps)

lemma mem_NotAhead: "(j, c') \<in> set (bt (NotAhead a) s i c) \<longleftrightarrow>
   j = i \<and> c' = c \<and> bt a s i c = []"
  by (auto simp: bt.simps split: list.splits)

lemma list_ex_endsAt:
  "list_ex (\<lambda>k. list_ex (\<lambda>(j, c'). j = i) (bt a s k c)) [0..<Suc i] \<longleftrightarrow> endsAt a s i c"
proof -
  have "list_ex (\<lambda>k. list_ex (\<lambda>(j, c'). j = i) (bt a s k c)) [0..<Suc i]
     \<longleftrightarrow> (\<exists>k<Suc i. \<exists>x\<in>set (bt a s k c). fst x = i)"
    unfolding list_ex_iff by (simp only: set_upt atLeastLessThan_iff Bex_def case_prod_beta) auto
  also have "\<dots> \<longleftrightarrow> endsAt a s i c"
    unfolding endsAt_def by (force simp: less_Suc_eq_le)
  finally show ?thesis .
qed

lemma mem_Behind: "(j, c') \<in> set (bt (Behind a) s i c) \<longleftrightarrow> j = i \<and> c' = c \<and> endsAt a s i c"
  by (simp only: bt.simps list_ex_endsAt) auto

lemma mem_NotBehind: "(j, c') \<in> set (bt (NotBehind a) s i c) \<longleftrightarrow> j = i \<and> c' = c \<and> \<not> endsAt a s i c"
  by (simp only: bt.simps list_ex_endsAt) auto

lemma mem_Alt: "(j, c') \<in> set (bt (Alt a b) s i c) \<longleftrightarrow>
   (j, c') \<in> set (bt a s i c) \<or> (j, c') \<in> set (bt b s i c)"
  by (auto simp: bt.simps)

lemma mem_StarG: "(j, c') \<in> set (bt (StarG a) s i c) \<longleftrightarrow>
   (j = i \<and> c' = c) \<or>
   (\<exists>k d. (k, d) \<in> set (bt a s i c) \<and>
      (if i < k \<and> k \<le> length s then (j, c') \<in> set (bt (StarG a) s k d) else j = k \<and> c' = d))"
  by (subst bt.simps(5)) (auto split: if_splits)

lemma mem_StarL: "(j, c') \<in> set (bt (StarL a) s i c) \<longleftrightarrow>
   (j = i \<and> c' = c) \<or>
   (\<exists>k d. (k, d) \<in> set (bt a s i c) \<and>
      (if i < k \<and> k \<le> length s then (j, c') \<in> set (bt (StarL a) s k d) else j = k \<and> c' = d))"
  by (subst bt.simps(6)) (auto split: if_splits)

subsection \<open>Positions stay inside the subject\<close>

lemma bt_bounds:
  "(j, c') \<in> set (bt r s i c) \<Longrightarrow> i \<le> length s \<Longrightarrow> i \<le> j \<and> j \<le> length s"
proof (induction r s i c arbitrary: j c' rule: bt.induct)
  case (3 a b s i c)
  from "3.prems"(1) obtain k d where kd: "(k, d) \<in> set (bt a s i c)" and j: "(j, c') \<in> set (bt b s k d)"
    by (auto simp: mem_Seq)
  from "3.IH"(1)[OF kd "3.prems"(2)] have "i \<le> k" "k \<le> length s" by auto
  with "3.IH"(2)[OF kd refl j] show ?case by auto
next
  case (5 a s i c)
  from "5.prems"(1) consider "j = i" 
    | k d where "(k, d) \<in> set (bt a s i c)" "i < k" "k \<le> length s" "(j, c') \<in> set (bt (StarG a) s k d)"
    | k d where "(k, d) \<in> set (bt a s i c)" "\<not> (i < k \<and> k \<le> length s)" "j = k"
    by (subst (asm) mem_StarG) (auto split: if_splits)
  then show ?case
  proof cases
    case 1
    then show ?thesis using "5.prems"(2) by simp
  next
    case 2
    from "5.IH"(2)[OF 2(1) refl _ 2(4)] 2(2,3) show ?thesis by auto
  next
    case 3
    from "5.IH"(1)[OF 3(1) "5.prems"(2)] 3(3) show ?thesis by auto
  qed
next
  case (6 a s i c)
  from "6.prems"(1) consider "j = i" 
    | k d where "(k, d) \<in> set (bt a s i c)" "i < k" "k \<le> length s" "(j, c') \<in> set (bt (StarL a) s k d)"
    | k d where "(k, d) \<in> set (bt a s i c)" "\<not> (i < k \<and> k \<le> length s)" "j = k"
    by (subst (asm) mem_StarL) (auto split: if_splits)
  then show ?case
  proof cases
    case 1
    then show ?thesis using "6.prems"(2) by simp
  next
    case 2
    from "6.IH"(2)[OF 2(1) refl _ 2(4)] 2(2,3) show ?thesis by auto
  next
    case 3
    from "6.IH"(1)[OF 3(1) "6.prems"(2)] 3(3) show ?thesis by auto
  qed
next
  case (7 n a s i c)
  then show ?case by (auto simp: mem_Grp)
next
  case (8 a s i c)
  then show ?case by (auto simp: mem_Ahead)
next
  case (9 a s i c)
  then show ?case by (auto simp: mem_NotAhead)
next
  case (10 a s i c)
  then show ?case by (auto simp: mem_Behind)
next
  case (11 a s i c)
  then show ?case by (auto simp: mem_NotBehind)
qed (auto simp: bt.simps split: if_splits)

declare mem_Cls [simp] mem_Seq [simp] mem_Grp [simp] mem_Ahead [simp] mem_NotAhead [simp]
  mem_Behind [simp] mem_NotBehind [simp] mem_Alt [simp]

lemma mem_Eps [simp]: "(j, c') \<in> set (bt Eps s i c) \<longleftrightarrow> j = i \<and> c' = c"
  by (auto simp: bt.simps)

lemma mem_Bol [simp]: "(j, c') \<in> set (bt Bol s i c) \<longleftrightarrow> j = i \<and> c' = c \<and> i = 0"
  by (auto simp: bt.simps)

lemma mem_Eol [simp]: "(j, c') \<in> set (bt Eol s i c) \<longleftrightarrow>
   j = i \<and> c' = c \<and> (i = length s \<or> (Suc i = length s \<and> s ! i = newline))"
  by (auto simp: bt.simps)

lemma mem_WordB [simp]: "(j, c') \<in> set (bt WordB s i c) \<longleftrightarrow>
   j = i \<and> c' = c \<and>
   ((0 < i \<and> i \<le> length s \<and> isWord (s ! (i - 1))) \<noteq> (i < length s \<and> isWord (s ! i)))"
  by (auto simp: bt.simps)

subsection \<open>Patterns without groups leave the groups as they are\<close>

lemma groupfree_caps:
  "(j, c') \<in> set (bt r s i c) \<Longrightarrow> groupfree r \<Longrightarrow> c' = c"
proof (induction r s i c arbitrary: j c' rule: bt.induct)
  case (3 a b s i c)
  from "3.prems"(1) obtain k d where kd: "(k, d) \<in> set (bt a s i c)" and j: "(j, c') \<in> set (bt b s k d)"
    by auto
  from "3.IH"(1)[OF kd] "3.prems"(2) have "d = c" by simp
  with "3.IH"(2)[OF kd refl j] "3.prems"(2) show ?case by simp
next
  case (5 a s i c)
  from "5.prems"(1) consider "c' = c" 
    | k d where "(k, d) \<in> set (bt a s i c)" "i < k" "k \<le> length s" "(j, c') \<in> set (bt (StarG a) s k d)"
    | k d where "(k, d) \<in> set (bt a s i c)" "c' = d"
    by (subst (asm) mem_StarG) (auto split: if_splits)
  then show ?case
  proof cases
    case 1
    then show ?thesis .
  next
    case 2
    from "5.IH"(1)[OF 2(1)] "5.prems"(2) have "d = c" by simp
    with "5.IH"(2)[OF 2(1) refl _ 2(4)] 2(2,3) "5.prems"(2) show ?thesis by simp
  next
    case 3
    from "5.IH"(1)[OF 3(1)] "5.prems"(2) 3(2) show ?thesis by simp
  qed
next
  case (6 a s i c)
  from "6.prems"(1) consider "c' = c" 
    | k d where "(k, d) \<in> set (bt a s i c)" "i < k" "k \<le> length s" "(j, c') \<in> set (bt (StarL a) s k d)"
    | k d where "(k, d) \<in> set (bt a s i c)" "c' = d"
    by (subst (asm) mem_StarL) (auto split: if_splits)
  then show ?case
  proof cases
    case 1
    then show ?thesis .
  next
    case 2
    from "6.IH"(1)[OF 2(1)] "6.prems"(2) have "d = c" by simp
    with "6.IH"(2)[OF 2(1) refl _ 2(4)] 2(2,3) "6.prems"(2) show ?thesis by simp
  next
    case 3
    from "6.IH"(1)[OF 3(1)] "6.prems"(2) 3(2) show ?thesis by simp
  qed
next
  case (8 a s i c)
  from "8.prems"(1) obtain x xs where x: "bt a s i c = x # xs" "c' = snd x" by auto
  then have "(fst x, snd x) \<in> set (bt a s i c)" by simp
  from "8.IH"[OF this] "8.prems"(2) x(2) show ?case by simp
qed auto

lemma groupfree_Chr [simp]: "groupfree (Chr d)"
  by (simp add: Chr_def)

lemma groupfree_cat [simp]: "groupfree (cat rs) \<longleftrightarrow> (\<forall>r\<in>set rs. groupfree r)"
  by (induction rs) auto

lemma groupfree_lit [simp]: "groupfree (lit w)"
  by (simp add: lit_def)

lemma groupfree_rep [simp]: "groupfree r \<Longrightarrow> groupfree (rep n r)"
  by (induction n) auto

lemma mem_Chr [simp]: "(j, c') \<in> set (bt (Chr d) s i c) \<longleftrightarrow>
   j = Suc i \<and> c' = c \<and> i < length s \<and> s ! i = d"
  by (simp add: Chr_def)

subsection \<open>The frame of the markdown patterns\<close>

text \<open>
  Every pattern of the rule table is a lookbehind, an opening delimiter, a negative
  lookahead, group 1, a negative lookbehind, a closing delimiter and a lookahead.
\<close>

lemma startOK_iff:
  "endsAt (Alt Bol (Cls P)) s i c \<longleftrightarrow> i = 0 \<or> (0 < i \<and> i \<le> length s \<and> P (s ! (i - 1)))"
proof
  assume "endsAt (Alt Bol (Cls P)) s i c"
  then show "i = 0 \<or> (0 < i \<and> i \<le> length s \<and> P (s ! (i - 1)))"
    unfolding endsAt_def by auto
next
  assume r: "i = 0 \<or> (0 < i \<and> i \<le> length s \<and> P (s ! (i - 1)))"
  show "endsAt (Alt Bol (Cls P)) s i c"
  proof (cases "i = 0")
    case True
    then show ?thesis unfolding endsAt_def by auto
  next
    case False
    with r have "i - 1 \<le> i" "(i, c) \<in> set (bt (Alt Bol (Cls P)) s (i - 1) c)" by auto
    then show ?thesis unfolding endsAt_def by blast
  qed
qed

lemma Cons_iff_mem: "(\<exists>x xs. l = x # xs) \<longleftrightarrow> (\<exists>k d. (k, d) \<in> set l)"
  by (cases l) force+

lemma Nil_iff_mem: "l = [] \<longleftrightarrow> \<not> (\<exists>k d. (k, d) \<in> set l)"
  by (cases l) force+

lemma endOK_iff:
  "(\<exists>x xs. bt (Alt Eol (Cls spaceOrNewline)) s j c = x # xs) \<longleftrightarrow>
     j = length s \<or> (j < length s \<and> spaceOrNewline (s ! j))"
  unfolding Cons_iff_mem by (auto simp: spaceOrNewline_def)

lemma frame_sound:
  assumes m: "(j, c') \<in> set (bt (cat [afterStartOrSpace, opn, NotAhead x, Grp 1 body,
                 NotBehind y, cls, beforeEndOrSpace]) s i c)"
    and gf: "groupfree opn" "groupfree cls"
  shows "startOK s i \<and> endOK s j \<and>
    (\<exists>a b d. (a, c) \<in> set (bt opn s i c) \<and> (b, d) \<in> set (bt body s a c) \<and>
        c' = d(1 \<mapsto> (a, b)) \<and> (j, c') \<in> set (bt cls s b c'))"
proof -
  from m obtain a c1 b d j' c2 x xs where
    s: "endsAt (Alt Bol (Cls spaceOrNewline)) s i c"
    and o: "(a, c1) \<in> set (bt opn s i c)"
    and b: "(b, d) \<in> set (bt body s a c1)"
    and cl: "(j', c2) \<in> set (bt cls s b (d(1 \<mapsto> (a, b))))"
    and e: "bt (Alt Eol (Cls spaceOrNewline)) s j' c2 = x # xs" "c' = snd x" "j = j'"
    unfolding afterStartOrSpace_def beforeEndOrSpace_def cat.simps
    by (auto simp del: mem_Alt)
  from groupfree_caps[OF o gf(1)] have c1: "c1 = c" .
  from groupfree_caps[OF cl gf(2)] have c2: "c2 = d(1 \<mapsto> (a, b))" .
  have "(fst x, snd x) \<in> set (bt (Alt Eol (Cls spaceOrNewline)) s j' c2)"
    using e(1) by simp
  from groupfree_caps[OF this] have x: "snd x = c2" by simp
  have "startOK s i" using s by (simp add: startOK_iff startOK_def)
  moreover have "endOK s j" using e(1,3) endOK_iff[of s j' c2] by (auto simp: endOK_def)
  ultimately show ?thesis using o b cl c1 c2 x e by auto
qed

subsection \<open>The matches of the iterator\<close>

declare globalMatch_from.simps [simp del]

lemma match_at_Some: "match_at r s i = Some (j, c') \<Longrightarrow> (j, c') \<in> set (bt r s i Map.empty)"
  unfolding match_at_def by (auto split: list.splits)

lemma match_at_None: "match_at r s i = None \<longleftrightarrow> bt r s i Map.empty = []"
  unfolding match_at_def by (auto split: list.splits)

lemma globalMatch_from_mem:
  "m \<in> set (globalMatch_from r s i) \<Longrightarrow>
     subject m = s \<and> i \<le> mstart m \<and> mstart m \<le> length s \<and>
     match_at r s (mstart m) = Some (mend m, groups m)"
proof (induction r s i rule: globalMatch_from.induct)
  case (1 r s i)
  show ?case
  proof (cases "length s < i")
    case True
    with "1.prems" show ?thesis by (subst (asm) globalMatch_from.simps) simp
  next
    case le: False
    show ?thesis
    proof (cases "match_at r s i")
      case None
      with le "1.prems" have "m \<in> set (globalMatch_from r s (Suc i))"
        by (subst (asm) globalMatch_from.simps) simp
      from "1.IH"(1)[OF le None this] show ?thesis by simp
    next
      case (Some x)
      obtain j c where x: "x = (j, c)" by (cases x)
      from le Some x "1.prems" consider
          "m = \<lparr>subject = s, mstart = i, mend = j, groups = c\<rparr>"
        | "m \<in> set (globalMatch_from r s (if i < j then j else Suc i))"
        by (subst (asm) globalMatch_from.simps) auto
      then show ?thesis
      proof cases
        case 1
        then show ?thesis using le Some x by simp
      next
        case 2
        from "1.IH"(2)[OF le Some x[symmetric] 2] show ?thesis by (auto split: if_splits)
      qed
    qed
  qed
qed

lemma globalMatch_mem:
  assumes "m \<in> set (globalMatch r s)"
  shows "subject m = s" "mstart m \<le> length s"
    "(mend m, groups m) \<in> set (bt r s (mstart m) Map.empty)"
  using globalMatch_from_mem[of m r s 0] assms match_at_Some
  unfolding globalMatch_def by auto

lemma globalMatch_bounds:
  assumes "m \<in> set (globalMatch r s)"
  shows "mstart m \<le> mend m" "mend m \<le> length s"
  using bt_bounds[OF globalMatch_mem(3)[OF assms] globalMatch_mem(2)[OF assms]] by auto

subsection \<open>The spans of a match of the rule table\<close>

lemma frame_spans:
  assumes m: "(j, c') \<in> set (bt (cat [afterStartOrSpace, opn, NotAhead x, Grp 1 body,
                 NotBehind y, cls, beforeEndOrSpace]) s i c)"
    and gf: "groupfree opn" "groupfree cls"
    and lo: "\<And>i c j c'. (j, c') \<in> set (bt opn s i c) \<Longrightarrow> j \<le> i + 3"
    and lc: "\<And>i c j c'. (j, c') \<in> set (bt cls s i c) \<Longrightarrow> j \<le> i + 3"
    and i: "i \<le> length s"
  shows "startOK s i \<and> endOK s j \<and>
    (\<exists>a b. c' 1 = Some (a, b) \<and> i \<le> a \<and> a \<le> b \<and> b \<le> j \<and> j \<le> length s \<and>
       j - i \<le> (b - a) + 6)"
proof -
  from frame_sound[OF m gf] obtain a b d where
    ok: "startOK s i" "endOK s j"
    and o: "(a, c) \<in> set (bt opn s i c)"
    and b: "(b, d) \<in> set (bt body s a c)"
    and c': "c' = d(1 \<mapsto> (a, b))"
    and cl: "(j, c') \<in> set (bt cls s b c')"
    by blast
  from bt_bounds[OF o i] have 1: "i \<le> a" "a \<le> length s" by auto
  from bt_bounds[OF b 1(2)] have 2: "a \<le> b" "b \<le> length s" by auto
  from bt_bounds[OF cl 2(2)] have 3: "b \<le> j" "j \<le> length s" by auto
  from lo[OF o] lc[OF cl] have 4: "a \<le> i + 3" "j \<le> b + 3" by auto
  from c' have "c' 1 = Some (a, b)" by simp
  with ok 1 2 3 4 show ?thesis by auto
qed

lemma len_Chr: "(j, c') \<in> set (bt (Chr d) s i c) \<Longrightarrow> j \<le> i + 3"
  by simp

lemma len_rep2: "(j, c') \<in> set (bt (rep 2 (Chr d)) s i c) \<Longrightarrow> j \<le> i + 3"
  by (auto simp: numeral_2_eq_2)

lemma len_fence: "(j, c') \<in> set (bt (lit ''```'') s i c) \<Longrightarrow> j \<le> i + 3"
  by (auto simp: lit_def)

lemma table_sound:
  assumes r: "(r, w) \<in> set REGEX_TO_WRAPPER"
    and m: "(j, c') \<in> set (bt r s i c)"
    and i: "i \<le> length s"
  shows "startOK s i \<and> endOK s j \<and>
    (\<exists>a b. c' 1 = Some (a, b) \<and> i \<le> a \<and> a \<le> b \<and> b \<le> j \<and> j \<le> length s \<and>
       j - i \<le> (b - a) + 6)"
proof -
  from r consider "r = SINGLE_SLASH_PATTERN" | d where "r = SINGLE_SIGN_PATTERN d"
    | d where "r = DOUBLE_SIGN_PATTERN d" | "r = MULTILINE_CODE"
    unfolding REGEX_TO_WRAPPER_def by auto
  then show ?thesis
  proof cases
    case 1
    show ?thesis
      by (rule frame_spans[OF m[unfolded 1 SINGLE_SLASH_PATTERN_def] _ _ len_Chr len_Chr i]) simp_all
  next
    case 2
    show ?thesis
      by (rule frame_spans[OF m[unfolded 2 SINGLE_SIGN_PATTERN_def] _ _ len_Chr len_Chr i]) simp_all
  next
    case 3
    show ?thesis
      by (rule frame_spans[OF m[unfolded 3 DOUBLE_SIGN_PATTERN_def] _ _ len_rep2 len_rep2 i]) simp_all
  next
    case 4
    show ?thesis
      by (rule frame_spans[OF m[unfolded 4 MULTILINE_CODE_def] _ _ len_fence len_fence i]) simp_all
  qed
qed

subsection \<open>Lengths of the replacement texts\<close>

lemma replace_q_length:
  "len \<le> length after \<Longrightarrow> length s \<le> length (replace_q s pos len after)"
  unfolding replace_q_def by auto

lemma arg_q_href: "length (arg_q HREF_WRAPPER a) = 15 + 2 * length a"
  unfolding HREF_WRAPPER_def by simp

lemma arg_q_table:
  "(r, w) \<in> set REGEX_TO_WRAPPER \<Longrightarrow> length a + 7 \<le> length (arg_q w a)"
  unfolding REGEX_TO_WRAPPER_def CODE_WRAPPER_def by auto

lemma captured0_length:
  assumes "m \<in> set (globalMatch r s)"
  shows "length (captured m 0) = capturedLength m"
  using globalMatch_bounds[OF assms] globalMatch_mem(1)[OF assms]
  unfolding captured_def capturedLength_def by auto

lemma captured1_length:
  assumes r: "(r, w) \<in> set REGEX_TO_WRAPPER" and m: "m \<in> set (globalMatch r s)"
  shows "capturedLength m \<le> length (captured m 1) + 6"
proof -
  from table_sound[OF r globalMatch_mem(3)[OF m] globalMatch_mem(2)[OF m]]
  obtain a b where "groups m 1 = Some (a, b)" "a \<le> b" "b \<le> mend m" "mend m \<le> length s"
    "mend m - mstart m \<le> (b - a) + 6"
    by blast
  then show ?thesis
    using globalMatch_mem(1)[OF m] unfolding captured_def capturedLength_def by auto
qed

lemma fold_fst_length:
  assumes "\<And>m st. m \<in> set ms \<Longrightarrow> length (fst st) \<le> length (fst (f m st))"
  shows "length (fst st) \<le> length (fst (fold f ms st))"
  using assms
proof (induction ms arbitrary: st)
  case Nil
  then show ?case by simp
next
  case (Cons m ms)
  have "length (fst st) \<le> length (fst (f m st))" using Cons.prems by simp
  also have "\<dots> \<le> length (fst (fold f ms (f m st)))" using Cons.IH Cons.prems by simp
  finally show ?case by simp
qed

lemma fold_length:
  assumes "\<And>x s. x \<in> set xs \<Longrightarrow> length s \<le> length (f x s)"
  shows "length (s :: string) \<le> length (fold f xs s)"
  using assms
proof (induction xs arbitrary: s)
  case Nil
  then show ?case by simp
next
  case (Cons x xs)
  have "length s \<le> length (f x s)" using Cons.prems by simp
  also have "\<dots> \<le> length (fold f xs (f x s))" using Cons.IH Cons.prems by simp
  finally show ?case by simp
qed

lemma url_step_length:
  assumes "m \<in> set (globalMatch r s)"
  shows "length (fst st) \<le> length (fst (url_step n m st))"
proof -
  obtain result offset where st: "st = (result, offset)" by (cases st)
  have "capturedLength m \<le> length (arg_q HREF_WRAPPER (captured m 0))"
    using captured0_length[OF assms] arg_q_href[of "captured m 0"] by simp
  then show ?thesis
    unfolding st url_step_def by (simp add: Let_def replace_q_length)
qed

lemma url_pass_length: "length s \<le> length (url_pass r s)"
  unfolding url_pass_def
  using fold_fst_length[where ms = "globalMatch r s" and st = "(s, 0)" and f = "url_step (length s)"] url_step_length
  by simp

lemma md_step_length:
  assumes r: "(r, w) \<in> set REGEX_TO_WRAPPER" and m: "m \<in> set (globalMatch r s)"
  shows "length (fst st) \<le> length (fst (md_step w b m st))"
proof -
  obtain result offset where st: "st = (result, offset)" by (cases st)
  have "capturedLength m \<le> length (arg_q w (captured m (if b then 0 else 1)))"
    using captured0_length[OF m] captured1_length[OF r m]
      arg_q_table[OF r, of "captured m 0"] arg_q_table[OF r, of "captured m 1"]
    by (cases b) auto
  then show ?thesis
    unfolding st md_step_def by (simp add: Let_def replace_q_length)
qed

lemma md_pass_length:
  assumes "p \<in> set REGEX_TO_WRAPPER"
  shows "length s \<le> length (md_pass b p s)"
proof -
  obtain r w where p: "p = (r, w)" by (cases p)
  show ?thesis
    unfolding md_pass_def p
    using fold_fst_length[where ms = "globalMatch r s" and st = "(s, 0)" and f = "md_step w b"]
      md_step_length[OF assms[unfolded p]]
    by simp
qed

subsection \<open>Subjects without a match\<close>

lemma globalMatch_from_none:
  "(\<And>k. i \<le> k \<Longrightarrow> k \<le> length s \<Longrightarrow> match_at r s k = None) \<Longrightarrow> globalMatch_from r s i = []"
proof (induction r s i rule: globalMatch_from.induct)
  case (1 r s i)
  show ?case
  proof (cases "length s < i")
    case True
    then show ?thesis by (subst globalMatch_from.simps) simp
  next
    case False
    then have n: "match_at r s i = None" using "1.prems"[of i] by simp
    have "globalMatch_from r s (Suc i) = []"
      by (rule "1.IH"(1)[OF False n]) (simp add: "1.prems")
    with False n show ?thesis by (subst globalMatch_from.simps) simp
  qed
qed

lemma noMatchAnywhere_globalMatch: "noMatchAnywhere r s \<Longrightarrow> globalMatch r s = []"
  unfolding noMatchAnywhere_def globalMatch_def
  by (rule globalMatch_from_none) (auto simp: list_all_iff Option.is_none_def simp del: upt_Suc)

lemma md_pass_no_match: "globalMatch (fst p) s = [] \<Longrightarrow> md_pass b p s = s"
  unfolding md_pass_def by simp

lemma fold_md_pass_id:
  "\<forall>p\<in>set ps. globalMatch (fst p) s = [] \<Longrightarrow> fold (md_pass b) ps s = s"
  by (induction ps) (auto simp: md_pass_no_match)

section \<open>The tag pattern and the tokens of the specification\<close>

subsection \<open>A match needs both angle brackets\<close>

lemma tag_needs_brackets:
  assumes "(j, c') \<in> set (bt TAG_PATTERN s i c)"
  shows "CHR ''<'' \<in> set s \<and> CHR ''>'' \<in> set s"
proof -
  from assms obtain k d e x xs where
    b: "endsAt (Chr CHR ''<'') s i c" and a: "bt (Chr CHR ''>'') s k d = x # xs"
    unfolding TAG_PATTERN_def cat.simps by auto
  from b obtain k' where "k' < length s" "s ! k' = CHR ''<''"
    unfolding endsAt_def by auto
  then have 1: "CHR ''<'' \<in> set s" using nth_mem by metis
  obtain j' d' where "x = (j', d')" by (cases x)
  with a have "(j', d') \<in> set (bt (Chr CHR ''>'') s k d)" by simp
  then have "k < length s" "s ! k = CHR ''>''" by simp_all
  then have 2: "CHR ''>'' \<in> set s" using nth_mem by metis
  from 1 2 show ?thesis by simp
qed

lemma no_brackets_no_match:
  assumes "CHR ''<'' \<notin> set s \<or> CHR ''>'' \<notin> set s"
  shows "globalMatch TAG_PATTERN s = []"
  unfolding globalMatch_def
proof (rule globalMatch_from_none)
  fix k
  show "match_at TAG_PATTERN s k = None"
    unfolding match_at_None Nil_iff_mem using tag_needs_brackets assms by blast
qed

subsection \<open>Runs of a character class\<close>

lemma all_from_Suc:
  "(\<forall>m. i \<le> m \<and> m < j \<longrightarrow> Q m) \<longleftrightarrow> (i < j \<longrightarrow> Q i) \<and> (\<forall>m. Suc i \<le> m \<and> m < j \<longrightarrow> Q m)"
proof (intro iffI conjI allI impI)
  fix m assume h: "(i < j \<longrightarrow> Q i) \<and> (\<forall>m. Suc i \<le> m \<and> m < j \<longrightarrow> Q m)" and m: "i \<le> m \<and> m < j"
  show "Q m"
  proof (cases "m = i")
    case True
    with h m show ?thesis by simp
  next
    case False
    with m have "Suc i \<le> m" by simp
    with h m show ?thesis by simp
  qed
qed auto

lemma star_cls_iff:
  "(j, c') \<in> set (bt (StarG (Cls P)) s i c) \<longleftrightarrow>
     c' = c \<and> i \<le> j \<and> (\<forall>m. i \<le> m \<and> m < j \<longrightarrow> m < length s \<and> P (s ! m))"
proof (induction "length s - i" arbitrary: i rule: less_induct)
  case less
  show ?case
  proof (cases "i < length s \<and> P (s ! i)")
    case False
    then have "(j, c') \<in> set (bt (StarG (Cls P)) s i c) \<longleftrightarrow> j = i \<and> c' = c"
      by (subst mem_StarG) auto
    moreover have "(i \<le> j \<and> (\<forall>m. i \<le> m \<and> m < j \<longrightarrow> m < length s \<and> P (s ! m))) \<longleftrightarrow> j = i"
      by (subst all_from_Suc) (use False in auto)
    ultimately show ?thesis by auto
  next
    case True
    from True have "length s - Suc i < length s - i" by linarith
    note ih = less[OF this]
    have "(j, c') \<in> set (bt (StarG (Cls P)) s i c) \<longleftrightarrow>
        (j = i \<and> c' = c) \<or> (j, c') \<in> set (bt (StarG (Cls P)) s (Suc i) c)"
      using True by (subst mem_StarG) auto
    also have "\<dots> \<longleftrightarrow> (j = i \<and> c' = c) \<or>
        (c' = c \<and> Suc i \<le> j \<and> (\<forall>m. Suc i \<le> m \<and> m < j \<longrightarrow> m < length s \<and> P (s ! m)))"
      by (simp only: ih)
    also have "\<dots> \<longleftrightarrow> c' = c \<and> i \<le> j \<and> (\<forall>m. i \<le> m \<and> m < j \<longrightarrow> m < length s \<and> P (s ! m))"
      by (subst (2) all_from_Suc) (use True in \<open>auto simp: Suc_le_eq\<close>)
    finally show ?thesis .
  qed
qed

lemma plus_cls_iff:
  "(j, c') \<in> set (bt (PlusG (Cls P)) s i c) \<longleftrightarrow>
     c' = c \<and> i < j \<and> (\<forall>m. i \<le> m \<and> m < j \<longrightarrow> m < length s \<and> P (s ! m))"
proof -
  have "(j, c') \<in> set (bt (PlusG (Cls P)) s i c) \<longleftrightarrow>
      i < length s \<and> P (s ! i) \<and> c' = c \<and> Suc i \<le> j \<and>
      (\<forall>m. Suc i \<le> m \<and> m < j \<longrightarrow> m < length s \<and> P (s ! m))"
    unfolding PlusG_def by (simp add: star_cls_iff)
  also have "\<dots> \<longleftrightarrow> c' = c \<and> i < j \<and> (\<forall>m. i \<le> m \<and> m < j \<longrightarrow> m < length s \<and> P (s ! m))"
    by (subst (2) all_from_Suc) (auto simp: Suc_le_eq)
  finally show ?thesis .
qed

lemma behind_Chr_iff:
  "endsAt (Chr d) s i c \<longleftrightarrow> 0 < i \<and> i \<le> length s \<and> s ! (i - 1) = d"
proof
  assume "endsAt (Chr d) s i c"
  then show "0 < i \<and> i \<le> length s \<and> s ! (i - 1) = d"
    unfolding endsAt_def by auto
next
  assume r: "0 < i \<and> i \<le> length s \<and> s ! (i - 1) = d"
  then have "i - 1 \<le> i" "(i, c) \<in> set (bt (Chr d) s (i - 1) c)" by auto
  then show "endsAt (Chr d) s i c" unfolding endsAt_def by blast
qed

lemma ahead_Chr_iff:
  "(\<exists>x xs. bt (Chr d) s k c = x # xs \<and> c' = snd x) \<longleftrightarrow> c' = c \<and> k < length s \<and> s ! k = d"
proof (cases "bt (Chr d) s k c")
  case Nil
  then have "\<not> (\<exists>j e. (j, e) \<in> set (bt (Chr d) s k c))" by simp
  then have "\<not> (k < length s \<and> s ! k = d)" by simp
  with Nil show ?thesis by auto
next
  case (Cons x xs)
  obtain j e where x: "x = (j, e)" by (cases x)
  with Cons have "(j, e) \<in> set (bt (Chr d) s k c)" by simp
  then have "e = c" "k < length s" "s ! k = d" by simp_all
  with Cons x show ?thesis by auto
qed

lemma tag_tail_iff:
  "(j, c') \<in> set (bt (Seq (PlusG (Cls P)) (Seq (Ahead (Chr d)) Eps)) s k c) \<longleftrightarrow>
     c' = c \<and> k < j \<and> (\<forall>m. k \<le> m \<and> m < j \<longrightarrow> P (s ! m)) \<and> j < length s \<and> s ! j = d"
proof -
  have "(j, c') \<in> set (bt (Seq (PlusG (Cls P)) (Seq (Ahead (Chr d)) Eps)) s k c) \<longleftrightarrow>
     (\<exists>e. (j, e) \<in> set (bt (PlusG (Cls P)) s k c) \<and>
          (\<exists>x xs. bt (Chr d) s j e = x # xs \<and> c' = snd x))"
    by (simp del: mem_Chr)
  also have "\<dots> \<longleftrightarrow> (k < j \<and> (\<forall>m. k \<le> m \<and> m < j \<longrightarrow> m < length s \<and> P (s ! m))) \<and>
      (c' = c \<and> j < length s \<and> s ! j = d)"
    unfolding plus_cls_iff ahead_Chr_iff by blast
  also have "\<dots> \<longleftrightarrow> c' = c \<and> k < j \<and> (\<forall>m. k \<le> m \<and> m < j \<longrightarrow> P (s ! m)) \<and> j < length s \<and> s ! j = d"
    by auto
  finally show ?thesis .
qed

lemma tag_mem_index:
  "(j, c') \<in> set (bt TAG_PATTERN s i c) \<longleftrightarrow>
     c' = c \<and> 0 < i \<and> j < length s \<and> s ! (i - 1) = CHR ''<'' \<and> s ! j = CHR ''>'' \<and>
     (\<exists>k. (k = i \<or> (k = Suc i \<and> s ! i = CHR ''/'')) \<and> k < j \<and>
          (\<forall>m. k \<le> m \<and> m < j \<longrightarrow> isAlnum (s ! m)))"
proof -
  let ?T = "Seq (PlusG (Cls isAlnum)) (Seq (Ahead (Chr CHR ''>'')) Eps)"
  have "(j, c') \<in> set (bt TAG_PATTERN s i c) \<longleftrightarrow>
      endsAt (Chr CHR ''<'') s i c \<and>
      ((i < length s \<and> s ! i = CHR ''/'' \<and> (j, c') \<in> set (bt ?T s (Suc i) c)) \<or>
       (j, c') \<in> set (bt ?T s i c))"
    unfolding TAG_PATTERN_def cat.simps Opt_def
    by (simp only: mem_Seq[of j c' "Behind _"] mem_Seq[of j c' "Alt _ _"] mem_Behind mem_Alt
        mem_Chr mem_Eps) blast
  also have "\<dots> \<longleftrightarrow> c' = c \<and> 0 < i \<and> j < length s \<and> s ! (i - 1) = CHR ''<'' \<and>
     s ! j = CHR ''>'' \<and>
     (\<exists>k. (k = i \<or> (k = Suc i \<and> s ! i = CHR ''/'')) \<and> k < j \<and>
          (\<forall>m. k \<le> m \<and> m < j \<longrightarrow> isAlnum (s ! m)))"
    unfolding tag_tail_iff behind_Chr_iff by (auto simp: Suc_le_eq)
  finally show ?thesis .
qed

subsection \<open>Tokens by index\<close>

lemma not_alnum [simp]:
  "\<not> isAlnum CHR ''/''" "\<not> isAlnum CHR ''<''" "\<not> isAlnum CHR ''>''"
  by (simp_all add: isAlnum_def isLower_def isUpper_def isDigit_def code_def)

lemma slice_Cons:
  "i < j \<Longrightarrow> j \<le> length s \<Longrightarrow>
     take (j - i) (drop i s) = s ! i # take (j - Suc i) (drop (Suc i) s)"
proof -
  assume a: "i < j" "j \<le> length s"
  then have "drop i s = s ! i # drop (Suc i) s" by (simp add: Cons_nth_drop_Suc)
  moreover from a have "j - i = Suc (j - Suc i)" by simp
  ultimately show ?thesis by simp
qed

lemma list_all_slice:
  assumes "b \<le> length s"
  shows "list_all P (take (b - a) (drop a s)) \<longleftrightarrow> (\<forall>m. a \<le> m \<and> m < b \<longrightarrow> P (s ! m))"
proof -
  have "list_all P (take (b - a) (drop a s)) \<longleftrightarrow> (\<forall>n<b - a. P (s ! (a + n)))"
    using assms by (auto simp: list_all_length)
  also have "\<dots> \<longleftrightarrow> (\<forall>m. a \<le> m \<and> m < b \<longrightarrow> P (s ! m))"
  proof (intro iffI allI impI)
    fix m assume h: "\<forall>n<b - a. P (s ! (a + n))" and m: "a \<le> m \<and> m < b"
    then have "m - a < b - a" by auto
    with h have "P (s ! (a + (m - a)))" by blast
    with m show "P (s ! m)" by simp
  next
    fix n assume h: "\<forall>m. a \<le> m \<and> m < b \<longrightarrow> P (s ! m)" and n: "n < b - a"
    then show "P (s ! (a + n))" by (simp add: less_diff_conv add.commute)
  qed
  finally show ?thesis .
qed

lemma tokenAt_index:
  "tokenAt s i j \<longleftrightarrow>
     0 < i \<and> j < length s \<and> s ! (i - 1) = CHR ''<'' \<and> s ! j = CHR ''>'' \<and>
     (\<exists>k. (k = i \<or> (k = Suc i \<and> s ! i = CHR ''/'')) \<and> k < j \<and>
          (\<forall>m. k \<le> m \<and> m < j \<longrightarrow> isAlnum (s ! m)))"
proof (cases "i < j \<and> j < length s")
  case False
  then show ?thesis unfolding tokenAt_def by auto
next
  case True
  then have sl: "take (j - i) (drop i s) = s ! i # take (j - Suc i) (drop (Suc i) s)"
    by (simp add: slice_Cons)
  have la: "\<And>a. list_all isAlnum (take (j - a) (drop a s)) \<longleftrightarrow>
      (\<forall>m. a \<le> m \<and> m < j \<longrightarrow> isAlnum (s ! m))"
    using True by (simp add: list_all_slice)
  have ne: "take (j - Suc i) (drop (Suc i) s) \<noteq> [] \<longleftrightarrow> Suc i < j"
    using True by auto
  have name: "isTagName (take (j - i) (drop i s)) \<longleftrightarrow>
      (if s ! i = CHR ''/'' then Suc i < j \<and> (\<forall>m. Suc i \<le> m \<and> m < j \<longrightarrow> isAlnum (s ! m))
       else (\<forall>m. i \<le> m \<and> m < j \<longrightarrow> isAlnum (s ! m)))"
    unfolding isTagName_def
    by (simp only: sl list.case ne la) (simp only: sl[symmetric] la)
  show ?thesis
  proof (cases "s ! i = CHR ''/''")
    case sl: True
    then have "\<not> (\<forall>m. i \<le> m \<and> m < j \<longrightarrow> isAlnum (s ! m))"
      using True not_alnum(1) by (metis le_refl)
    then show ?thesis unfolding tokenAt_def name using True sl by auto
  next
    case False
    then show ?thesis unfolding tokenAt_def name using True by auto
  qed
qed

lemma tag_mem_iff: "(j, c') \<in> set (bt TAG_PATTERN s i c) \<longleftrightarrow> c' = c \<and> tokenAt s i j"
  unfolding tag_mem_index tokenAt_index by blast

lemma tokenAt_unique:
  assumes "tokenAt s i j" "tokenAt s i j'"
  shows "j = j'"
proof -
  have *: "\<not> (a < b)" if "tokenAt s i a" "tokenAt s i b" for a b
  proof
    assume ab: "a < b"
    from that(2) obtain k where k: "k = i \<or> k = Suc i" "\<forall>m. k \<le> m \<and> m < b \<longrightarrow> isAlnum (s ! m)"
      unfolding tokenAt_index by blast
    from that(1) have a: "i < a" "s ! a = CHR ''>''" unfolding tokenAt_def by auto
    from k(1) a(1) have "k \<le> a" by auto
    with k(2) ab have "isAlnum (s ! a)" by blast
    with a(2) show False by simp
  qed
  from *[OF assms] *[OF assms(2,1)] show ?thesis by simp
qed

lemma tokenAt_no_overlap:
  assumes t: "tokenAt s i j" and a: "i < a" "a \<le> j"
  shows "\<not> tokenAt s a b"
proof
  assume "tokenAt s a b"
  then have lt: "s ! (a - 1) = CHR ''<''" unfolding tokenAt_def by simp
  from t obtain k where k: "k = i \<or> (k = Suc i \<and> s ! i = CHR ''/'')"
      "\<forall>m. k \<le> m \<and> m < j \<longrightarrow> isAlnum (s ! m)"
    unfolding tokenAt_index by blast
  show False
  proof (cases "k \<le> a - 1")
    case True
    with k(2) a have "isAlnum (s ! (a - 1))" by simp
    with lt show False by simp
  next
    case False
    with k(1) a have "a - 1 = i" "s ! i = CHR ''/''" by auto
    with lt show False by simp
  qed
qed

lemma match_at_tag_Some: "match_at TAG_PATTERN s i = Some (j, c) \<Longrightarrow> c = Map.empty \<and> tokenAt s i j"
  using match_at_Some[of TAG_PATTERN s i j c] by (simp add: tag_mem_iff)

lemma match_at_tag_None: "match_at TAG_PATTERN s i = None \<Longrightarrow> \<not> tokenAt s i j"
  unfolding match_at_None Nil_iff_mem by (simp add: tag_mem_iff)

subsection \<open>The scan finds the tokens in order\<close>

lemma tokensFrom_end: "length s \<le> a \<Longrightarrow> tokensFrom s a = []"
  unfolding tokensFrom_def by simp

lemma tokensFrom_step:
  "a < length s \<Longrightarrow>
     tokensFrom s a = map (Pair a) (filter (tokenAt s a) [a..<length s]) @ tokensFrom s (Suc a)"
  unfolding tokensFrom_def by (simp add: upt_conv_Cons)

lemma tokensFrom_none:
  assumes "\<And>j. \<not> tokenAt s a j"
  shows "tokensFrom s a = tokensFrom s (Suc a)"
proof (cases "a < length s")
  case True
  have "filter (tokenAt s a) [a..<length s] = []" using assms by simp
  with True show ?thesis by (simp add: tokensFrom_step)
next
  case False
  then show ?thesis by (simp add: tokensFrom_end)
qed

lemma filter_eq_singleton: "distinct xs \<Longrightarrow> j \<in> set xs \<Longrightarrow> filter (\<lambda>x. x = j) xs = [j]"
  by (induction xs) (auto simp: filter_empty_conv)

lemma tokensFrom_token:
  assumes "tokenAt s a j"
  shows "tokensFrom s a = (a, j) # tokensFrom s (Suc a)"
proof -
  from assms have b: "a < j" "j < length s" unfolding tokenAt_def by auto
  have "filter (tokenAt s a) [a..<length s] = filter (\<lambda>x. x = j) [a..<length s]"
    by (rule filter_cong) (use assms tokenAt_unique in auto)
  also have "\<dots> = [j]" using b by (intro filter_eq_singleton) auto
  finally show ?thesis using b by (simp add: tokensFrom_step)
qed

lemma tokensFrom_skip:
  assumes "a \<le> b" and "\<And>x j. a \<le> x \<Longrightarrow> x < b \<Longrightarrow> \<not> tokenAt s x j"
  shows "tokensFrom s a = tokensFrom s b"
  using assms
proof (induction rule: dec_induct)
  case base
  show ?case by simp
next
  case (step n)
  have "tokensFrom s a = tokensFrom s n" using step by simp
  also have "\<dots> = tokensFrom s (Suc n)" using step by (intro tokensFrom_none) simp
  finally show ?case .
qed

lemma tokensFrom_sound: "(i, j) \<in> set (tokensFrom s a) \<Longrightarrow> tokenAt s i j"
  unfolding tokensFrom_def by auto

lemma globalMatch_from_tag:
  "globalMatch_from TAG_PATTERN s i = map (tokenMatch s) (tokensFrom s i)"
proof (induction "TAG_PATTERN" s i rule: globalMatch_from.induct)
  case (1 s i)
  show ?case
  proof (cases "length s < i")
    case True
    then show ?thesis by (subst globalMatch_from.simps) (simp add: tokensFrom_end)
  next
    case le: False
    show ?thesis
    proof (cases "match_at TAG_PATTERN s i")
      case None
      have "globalMatch_from TAG_PATTERN s i = globalMatch_from TAG_PATTERN s (Suc i)"
        using le None by (subst globalMatch_from.simps) simp
      also have "\<dots> = map (tokenMatch s) (tokensFrom s (Suc i))" by (rule "1.hyps"(1)[OF le None])
      also have "tokensFrom s (Suc i) = tokensFrom s i"
        using match_at_tag_None[OF None] by (simp add: tokensFrom_none)
      finally show ?thesis .
    next
      case (Some x)
      obtain j c where x: "x = (j, c)" by (cases x)
      from match_at_tag_Some[OF Some[unfolded x]] have c: "c = Map.empty" and t: "tokenAt s i j"
        by auto
      from t have ij: "i < j" "j < length s" unfolding tokenAt_def by auto
      have "globalMatch_from TAG_PATTERN s i
          = \<lparr>subject = s, mstart = i, mend = j, groups = c\<rparr> # globalMatch_from TAG_PATTERN s j"
        using le Some x ij by (subst globalMatch_from.simps) simp
      also have "globalMatch_from TAG_PATTERN s j = map (tokenMatch s) (tokensFrom s j)"
        using "1.hyps"(2)[OF le Some x[symmetric]] ij by simp
      also have "tokensFrom s j = tokensFrom s (Suc i)"
        using ij tokenAt_no_overlap[OF t] by (intro tokensFrom_skip[symmetric]) auto
      finally show ?thesis
        using tokensFrom_token[OF t] c by (simp add: tokenMatch_def)
    qed
  qed
qed

subsection \<open>The counters\<close>

lemma fold_tag_step:
  "fold tag_step ms (oc, cc) =
     (oc + int (length (filter (\<lambda>m. \<not> startsWithSlash (captured m 0)) ms)),
      cc + int (length (filter (\<lambda>m. startsWithSlash (captured m 0)) ms)))"
  by (induction ms arbitrary: oc cc) (auto simp: tag_step_def)

lemma startsWithSlash_token:
  assumes "tokenAt s i j"
  shows "startsWithSlash (captured (tokenMatch s (i, j)) 0) \<longleftrightarrow> closingToken s (i, j)"
proof -
  from assms have "i < j" "j \<le> length s" unfolding tokenAt_def by auto
  from slice_Cons[OF this] show ?thesis
    by (simp add: captured_def tokenMatch_def startsWithSlash_def closingToken_def)
qed

lemma filter_tokens:
  "length (filter (\<lambda>m. startsWithSlash (captured m 0)) (map (tokenMatch s) (tokensFrom s a)))
     = length (filter (closingToken s) (tokensFrom s a))"
  "length (filter (\<lambda>m. \<not> startsWithSlash (captured m 0)) (map (tokenMatch s) (tokensFrom s a)))
     = length (filter (\<lambda>t. \<not> closingToken s t) (tokensFrom s a))"
proof -
  have *: "\<And>t. t \<in> set (tokensFrom s a) \<Longrightarrow>
      startsWithSlash (captured (tokenMatch s t) 0) \<longleftrightarrow> closingToken s t"
    using startsWithSlash_token tokensFrom_sound by (metis prod.collapse)
  have "filter (\<lambda>t. startsWithSlash (captured (tokenMatch s t) 0)) (tokensFrom s a)
      = filter (closingToken s) (tokensFrom s a)"
    by (rule filter_cong) (simp_all add: *)
  then show "length (filter (\<lambda>m. startsWithSlash (captured m 0)) (map (tokenMatch s) (tokensFrom s a)))
     = length (filter (closingToken s) (tokensFrom s a))"
    by (simp add: filter_map comp_def)
  have "filter (\<lambda>t. \<not> startsWithSlash (captured (tokenMatch s t) 0)) (tokensFrom s a)
      = filter (\<lambda>t. \<not> closingToken s t) (tokensFrom s a)"
    by (rule filter_cong) (simp_all add: *)
  then show "length (filter (\<lambda>m. \<not> startsWithSlash (captured m 0)) (map (tokenMatch s) (tokensFrom s a)))
     = length (filter (\<lambda>t. \<not> closingToken s t) (tokensFrom s a))"
    by (simp add: filter_map comp_def)
qed

section \<open>The claims\<close>

subsection \<open>Worked examples of \<open>applyMarkdown\<close>\<close>

lemma md_open_bracket: "applyMarkdown ''*a <b c*'' False = ''<b>a <b c</b>''"
  by code_simp

text \<open>
  C1, as stated: for the input \<open>*a <b c*\<close> with \<open>showFormattingSymbols = false\<close>,
  \<open>applyMarkdown\<close> returns the input unchanged. The code does not: the result differs from
  the input.
\<close>

theorem unbalanced_token_counterexample: "applyMarkdown ''*a <b c*'' False \<noteq> ''*a <b c*''"
  using md_open_bracket by simp

text \<open>
  C1, amended: for the input \<open>*a <b c*\<close> the single-asterisk match is replaced and the
  result is \<open><b>a <b c</b>\<close>, because the checker reports no imbalance for the captured
  text \<open>a <b c\<close> (the name \<open>b\<close> is not followed by \<open>>\<close>, so it is no token). With the token
  closed, as in \<open>*a <b> c*\<close>, the checker reports imbalance for \<open>a <b> c\<close>, the match is
  skipped and the input is returned unchanged.
\<close>

theorem unbalanced_token_amended:
  "applyMarkdown ''*a <b c*'' False = ''<b>a <b c</b>'' \<and>
   \<not> isTagIntersection ''a <b c'' \<and>
   isTagIntersection ''a <b> c'' \<and>
   applyMarkdown ''*a <b> c*'' False = ''*a <b> c*''"
proof (intro conjI)
  show "applyMarkdown ''*a <b c*'' False = ''<b>a <b c</b>''" by (rule md_open_bracket)
  show "\<not> isTagIntersection ''a <b c''" by code_simp
  show "isTagIntersection ''a <b> c''" by code_simp
  show "applyMarkdown ''*a <b> c*'' False = ''*a <b> c*''" by code_simp
qed

text \<open>
  C5: \<open>applyMarkdown("*bold*", false)\<close> is \<open><b>bold</b>\<close> and \<open>applyMarkdown("*bold*", true)\<close>
  is \<open><b>*bold*</b>\<close>: the single match of the asterisk pattern has the whole match
  \<open>*bold*\<close> as group 0, substituted when the flag is true, and the inner text \<open>bold\<close> as
  group 1, substituted when it is false.
\<close>

theorem bold_example:
  "applyMarkdown ''*bold*'' False = ''<b>bold</b>'' \<and>
   applyMarkdown ''*bold*'' True = ''<b>*bold*</b>'' \<and>
   map (\<lambda>m. (captured m 0, captured m 1)) (globalMatch (SINGLE_SIGN_PATTERN CHR ''*'') ''*bold*'')
     = [(''*bold*'', ''bold'')]"
proof (intro conjI)
  show "applyMarkdown ''*bold*'' False = ''<b>bold</b>''" by code_simp
  show "applyMarkdown ''*bold*'' True = ''<b>*bold*</b>''" by code_simp
  show "map (\<lambda>m. (captured m 0, captured m 1))
          (globalMatch (SINGLE_SIGN_PATTERN CHR ''*'') ''*bold*'') = [(''*bold*'', ''bold'')]"
    by code_simp
qed

text \<open>
  C6: \<open>applyMarkdown("/it/ and _u_", false)\<close> is \<open><i>it</i> and <u>u</u>\<close>: the matches of
  the slash pattern and of the underscore pattern are each wrapped in their own tag. Two
  matches of one pattern in one pass, as in \<open>/a/ /b/\<close>, are both replaced in place: the
  second at its start position in the scanned string plus the offset left by the first.
\<close>

theorem italic_underline_example:
  "applyMarkdown ''/it/ and _u_'' False = ''<i>it</i> and <u>u</u>'' \<and>
   applyMarkdown ''/a/ /b/'' False = ''<i>a</i> <i>b</i>''"
proof (intro conjI)
  show "applyMarkdown ''/it/ and _u_'' False = ''<i>it</i> and <u>u</u>''" by code_simp
  show "applyMarkdown ''/a/ /b/'' False = ''<i>a</i> <i>b</i>''" by code_simp
qed

subsection \<open>The boundary rule\<close>

text \<open>
  C4: a span of the scanned string whose opening delimiter is not preceded by the start
  of the string or by whitespace, or whose closing delimiter is not followed by the end
  of the string or by whitespace, is not a match of any pattern of the rule table; and
  \<open>applyMarkdown("a*bold*b", false)\<close> is \<open>a*bold*b\<close>. Here \<open>i\<close> is the position of the opening
  delimiter and \<open>j\<close> the position after the closing one.
\<close>

theorem boundary_rule:
  assumes "(0 < i \<and> \<not> spaceOrNewline (s ! (i - 1))) \<or> (j < length s \<and> \<not> spaceOrNewline (s ! j))"
    and "(r, w) \<in> set REGEX_TO_WRAPPER"
  shows "(\<forall>m\<in>set (globalMatch r s). \<not> (mstart m = i \<and> mend m = j)) \<and>
    applyMarkdown ''a*bold*b'' False = ''a*bold*b''"
proof
  show "\<forall>m\<in>set (globalMatch r s). \<not> (mstart m = i \<and> mend m = j)"
  proof (intro ballI notI)
    fix m assume m: "m \<in> set (globalMatch r s)" and ij: "mstart m = i \<and> mend m = j"
    from table_sound[OF assms(2) globalMatch_mem(3)[OF m] globalMatch_mem(2)[OF m]]
    have "startOK s i" "endOK s j" using ij by auto
    with assms(1) show False unfolding startOK_def endOK_def by auto
  qed
  show "applyMarkdown ''a*bold*b'' False = ''a*bold*b''" by code_simp
qed

theorem boundary_rule_witness:
  "(0::nat) < 5 \<and> \<not> spaceOrNewline (''*a* b*c*'' ! (5 - 1)) \<and>
   (SINGLE_SIGN_PATTERN CHR ''*'', ''<b>%1</b>'') \<in> set REGEX_TO_WRAPPER \<and>
   map (\<lambda>m. (mstart m, mend m)) (globalMatch (SINGLE_SIGN_PATTERN CHR ''*'') ''*a* b*c*'')
     = [(0, 3)] \<and>
   list_all (\<lambda>m. \<not> (mstart m = 5 \<and> mend m = 8))
     (globalMatch (SINGLE_SIGN_PATTERN CHR ''*'') ''*a* b*c*'') \<and>
   applyMarkdown ''a*bold*b'' False = ''a*bold*b''"
proof -
  have h0: "(0::nat) < 5 \<and> \<not> spaceOrNewline (''*a* b*c*'' ! (5 - 1))"
    by (simp add: spaceOrNewline_def isSpaceUcp_def isSpaceAscii_def code_def newline_def)
  then have h1: "(0 < (5::nat) \<and> \<not> spaceOrNewline (''*a* b*c*'' ! (5 - 1))) \<or>
      ((8::nat) < length ''*a* b*c*'' \<and> \<not> spaceOrNewline (''*a* b*c*'' ! 8))"
    by (rule disjI1)
  have h2: "(SINGLE_SIGN_PATTERN CHR ''*'', ''<b>%1</b>'') \<in> set REGEX_TO_WRAPPER"
    by (simp add: REGEX_TO_WRAPPER_def)
  have h3: "map (\<lambda>m. (mstart m, mend m))
      (globalMatch (SINGLE_SIGN_PATTERN CHR ''*'') ''*a* b*c*'') = [(0, 3)]"
    by code_simp
  from boundary_rule[OF h1 h2] h0 h2 h3 show ?thesis
    unfolding list_all_iff by blast
qed

subsection \<open>Messages without markdown\<close>

text \<open>
  C7: when no pattern of the rule table matches at any position of \<open>s\<close>, both
  \<open>applyMarkdown(s, false)\<close> and \<open>applyMarkdown(s, true)\<close> are \<open>s\<close>.
\<close>

theorem no_delimiter_unchanged:
  assumes "list_all (\<lambda>(r, w). noMatchAnywhere r s) REGEX_TO_WRAPPER"
  shows "applyMarkdown s False = s \<and> applyMarkdown s True = s"
proof -
  have "\<forall>p\<in>set REGEX_TO_WRAPPER. globalMatch (fst p) s = []"
    using assms by (auto simp: list_all_iff noMatchAnywhere_globalMatch)
  then show ?thesis unfolding applyMarkdown_def by (simp add: fold_md_pass_id)
qed

theorem no_delimiter_unchanged_witness:
  "list_all (\<lambda>(r, w). noMatchAnywhere r ''a b'') REGEX_TO_WRAPPER \<and>
   applyMarkdown ''a b'' False = ''a b'' \<and> applyMarkdown ''a b'' True = ''a b''"
proof -
  have h: "list_all (\<lambda>(r, w). noMatchAnywhere r ''a b'') REGEX_TO_WRAPPER" by code_simp
  from h no_delimiter_unchanged[OF h] show ?thesis by simp
qed

subsection \<open>The URL highlighter\<close>

text \<open>
  C2, at a Tox ID that holds digits: \<open>tox:\<close> followed by 76 characters of a hexadecimal
  public key is left as it is, because the class \<open>[a-zA-Z\\d]\<close> of the third pattern holds
  no digit. A key of 76 letters is wrapped.
\<close>

theorem tox_id_with_digits_not_highlighted:
  "length ''tox:56A1ADE4B65B86BCD51CC73E2CD4E542179F47959FE3E0E21B4B0ACDADE51855D34D34D37CB5'' = 80 \<and>
   highlightURL ''tox:56A1ADE4B65B86BCD51CC73E2CD4E542179F47959FE3E0E21B4B0ACDADE51855D34D34D37CB5''
     = ''tox:56A1ADE4B65B86BCD51CC73E2CD4E542179F47959FE3E0E21B4B0ACDADE51855D34D34D37CB5'' \<and>
   highlightURL (''tox:'' @ replicate 76 CHR ''A'')
     = arg_q HREF_WRAPPER (''tox:'' @ replicate 76 CHR ''A'')"
proof (intro conjI)
  show "length ''tox:56A1ADE4B65B86BCD51CC73E2CD4E542179F47959FE3E0E21B4B0ACDADE51855D34D34D37CB5'' = 80"
    by simp
  show "highlightURL ''tox:56A1ADE4B65B86BCD51CC73E2CD4E542179F47959FE3E0E21B4B0ACDADE51855D34D34D37CB5''
     = ''tox:56A1ADE4B65B86BCD51CC73E2CD4E542179F47959FE3E0E21B4B0ACDADE51855D34D34D37CB5''"
    by code_simp
  show "highlightURL (''tox:'' @ replicate 76 CHR ''A'')
     = arg_q HREF_WRAPPER (''tox:'' @ replicate 76 CHR ''A'')"
    by code_simp
qed

lemma highlight_once: "highlightURL ''www.a'' = arg_q HREF_WRAPPER ''www.a''"
  by code_simp

lemma highlight_twice:
  "highlightURL (arg_q HREF_WRAPPER ''www.a'') = arg_q HREF_WRAPPER (arg_q HREF_WRAPPER ''www.a'')"
  by code_simp

text \<open>
  C8: \<open>highlightURL\<close> is not idempotent: there is a message on which a second run changes
  the result of the first. On \<open>www.a\<close> the first run gives the anchor of \<open>www.a\<close>, and the
  second run wraps again both copies of \<open>www.a\<close> in it, the one inside the \<open>href\<close> value
  included.
\<close>

theorem highlightURL_not_idempotent:
  "(\<exists>s. highlightURL (highlightURL s) \<noteq> highlightURL s) \<and>
   highlightURL ''www.a'' = arg_q HREF_WRAPPER ''www.a'' \<and>
   highlightURL (highlightURL ''www.a'') = arg_q HREF_WRAPPER (arg_q HREF_WRAPPER ''www.a'')"
proof (intro conjI exI)
  show "highlightURL (highlightURL ''www.a'') \<noteq> highlightURL ''www.a''"
    unfolding highlight_once highlight_twice by (simp add: HREF_WRAPPER_def)
  show "highlightURL ''www.a'' = arg_q HREF_WRAPPER ''www.a''" by (rule highlight_once)
  show "highlightURL (highlightURL ''www.a'') = arg_q HREF_WRAPPER (arg_q HREF_WRAPPER ''www.a'')"
    unfolding highlight_once by (rule highlight_twice)
qed

subsection \<open>Lengths\<close>

text \<open>
  C9: neither operation shortens its input: for every message \<open>m\<close> and flag \<open>b\<close> the results
  of \<open>highlightURL(m)\<close> and of \<open>applyMarkdown(m, b)\<close> are at least as long as \<open>m\<close>.
\<close>

theorem never_shortens:
  "length m \<le> length (highlightURL m) \<and> length m \<le> length (applyMarkdown m b)"
proof
  show "length m \<le> length (highlightURL m)"
    unfolding highlightURL_def by (rule fold_length) (rule url_pass_length)
  show "length m \<le> length (applyMarkdown m b)"
    unfolding applyMarkdown_def by (rule fold_length) (rule md_pass_length)
qed

subsection \<open>The Tag-Intersection Checker\<close>

text \<open>
  C3: for every string, \<open>isTagIntersection\<close> returns true exactly when the number of
  tag-name tokens of the string that start with \<open>/\<close> differs from the number of those
  that do not.
\<close>

theorem isTagIntersection_counts: "isTagIntersection s \<longleftrightarrow> tagImbalance s"
  unfolding isTagIntersection_def tagCounts_def globalMatch_def globalMatch_from_tag
    fold_tag_step filter_tokens tagImbalance_def tagTokens_def
  by auto

text \<open>
  C10: for a string without \<open><\<close> or without \<open>>\<close>, \<open>isTagIntersection\<close> returns false; so a
  match whose captured text is such a string is not skipped by the loop body of
  \<open>applyMarkdown\<close>: the body replaces the span of the match by the wrapped text and adds
  the difference of the lengths to the offset.
\<close>

theorem no_brackets_never_skipped:
  assumes "CHR ''<'' \<notin> set str \<or> CHR ''>'' \<notin> set str"
  shows "\<not> isTagIntersection str \<and>
    (\<forall>w b m result offset. captured m (if b then 0 else 1) = str \<longrightarrow>
       md_step w b m (result, offset) =
         (replace_q result (int (capturedStart m) + offset) (capturedLength m) (arg_q w str),
          offset + (int (length (arg_q w str)) - int (capturedLength m))))"
proof -
  have n: "\<not> isTagIntersection str"
    unfolding isTagIntersection_def tagCounts_def no_brackets_no_match[OF assms] by simp
  then show ?thesis unfolding md_step_def by (simp add: Let_def)
qed

theorem no_brackets_never_skipped_witness:
  "CHR ''<'' \<notin> set ''bold'' \<and> \<not> isTagIntersection ''bold'' \<and>
   captured \<lparr>subject = ''*bold*'', mstart = 0, mend = 6, groups = [1 \<mapsto> (1, 5)]\<rparr> 1 = ''bold'' \<and>
   md_step ''<b>%1</b>'' False
     \<lparr>subject = ''*bold*'', mstart = 0, mend = 6, groups = [1 \<mapsto> (1, 5)]\<rparr> (''*bold*'', 0)
     = (''<b>bold</b>'', 5)"
proof -
  have h: "CHR ''<'' \<notin> set ''bold'' \<or> CHR ''>'' \<notin> set ''bold''" by simp
  have c: "captured \<lparr>subject = ''*bold*'', mstart = 0, mend = 6, groups = [1 \<mapsto> (1, 5)]\<rparr>
             (if False then 0 else 1) = ''bold''"
    by (simp add: captured_def)
  from no_brackets_never_skipped[OF h] c show ?thesis
    by (simp add: captured_def capturedStart_def capturedLength_def replace_q_def)
qed

end
